theory Spec2Isabelle
  imports Complex_Main "HOL-Library.Multiset" "HOL-Library.Log_Nat"
begin

section \<open>Data model of the MAXCUT-QAOA notebook\<close>

text \<open>
  The notebook \<^verbatim>\<open>QAOA_Demo_Code.ipynb\<close> works on a networkx graph, on bitstrings
  (Python \<^verbatim>\<open>str\<close>), on dictionaries from bitstrings to integer counts and on a
  circuit object that collects instructions.

  A graph is represented by the two enumerations the notebook reads from it:
  \<^verbatim>\<open>G.nodes()\<close> and \<^verbatim>\<open>G.edges()\<close>, each in the order in which the graph
  yields them. Node identifiers are non-negative integers.
\<close>

record graph =
  nodes :: "nat list"
  edges :: "(nat \<times> nat) list"

definition number_of_nodes :: "graph \<Rightarrow> nat" where
  "number_of_nodes G = length (nodes G)"

text \<open>
  The invariant of the graphs the notebook is about: the node identifiers are
  \<open>0, ..., N - 1\<close>, each once, and every edge joins two different existing nodes.
\<close>

definition valid_graph :: "graph \<Rightarrow> bool" where
  "valid_graph G \<longleftrightarrow>
     distinct (nodes G) \<and>
     (\<forall>n \<in> set (nodes G). n < length (nodes G)) \<and>
     (\<forall>(i, j) \<in> set (edges G). i \<in> set (nodes G) \<and> j \<in> set (nodes G) \<and> i \<noteq> j)"

text \<open>
  The graph of the notebook, built by
  \<^verbatim>\<open>G.add_edges_from([[0,3],[0,4],[1,3],[1,4],[2,3],[2,4]])\<close>: networkx keeps the
  nodes in the order in which they were first mentioned and reports every edge once, from
  its endpoint that comes first in that order.
\<close>

definition G_demo :: graph where
  "G_demo = \<lparr>nodes = [0, 3, 4, 1, 2],
             edges = [(0, 3), (0, 4), (3, 1), (3, 2), (4, 1), (4, 2)]\<rparr>"

text \<open>The exceptions that the modelled code can raise.\<close>

datatype error =
    AssertionError | IndexError | ZeroDivisionError | OverflowError | ValueError | CircuitError

text \<open>
  \<^verbatim>\<open>x[i]\<close> for a non-negative index: the element, or \<^verbatim>\<open>IndexError\<close> when the
  index is not below the length.
\<close>

definition getitem :: "'a list \<Rightarrow> nat \<Rightarrow> error + 'a" where
  "getitem xs i = (if i < length xs then Inr (xs ! i) else Inl IndexError)"

section \<open>The classical objective\<close>

text \<open>
  \<^verbatim>\<open>
  def maxcut_obj(x,G):
      cut = 0
      for i, j in G.edges():
          if x[i] != x[j]:
              # the edge is cut
              cut -= 1
      return cut
  \<close>
  The loop over the edges carries the accumulator \<^verbatim>\<open>cut\<close> (here \<open>cut_acc\<close>);
  reading \<^verbatim>\<open>x[i]\<close> or \<^verbatim>\<open>x[j]\<close> out of range ends the call with the exception.
\<close>

fun maxcut_loop :: "string \<Rightarrow> (nat \<times> nat) list \<Rightarrow> int \<Rightarrow> error + int" where
  "maxcut_loop x [] cut_acc = Inr cut_acc"
| "maxcut_loop x ((i, j) # es) cut_acc =
     (case getitem x i of
        Inl e \<Rightarrow> Inl e
      | Inr xi \<Rightarrow>
          (case getitem x j of
             Inl e \<Rightarrow> Inl e
           | Inr xj \<Rightarrow> maxcut_loop x es (if xi \<noteq> xj then cut_acc - 1 else cut_acc)))"

definition maxcut_obj :: "string \<Rightarrow> graph \<Rightarrow> error + int" where
  "maxcut_obj x G = maxcut_loop x (edges G) 0"

text \<open>
  The notions the specification uses to describe the objective: the signed cut value
  (the sum over the edges \<open>(i, j)\<close> of \<open>-1\<close> when bit \<open>i\<close> differs from bit \<open>j\<close>,
  else \<open>0\<close>), bitstrings over the characters 0 and 1, and the bitstring with every bit
  flipped.
\<close>

definition cut_value :: "string \<Rightarrow> graph \<Rightarrow> int" where
  "cut_value b G = (\<Sum>(i, j) \<leftarrow> edges G. if b ! i \<noteq> b ! j then - 1 else 0)"

definition is_bitstring :: "string \<Rightarrow> bool" where
  "is_bitstring b \<longleftrightarrow> (\<forall>c \<in> set b. c = CHR ''0'' \<or> c = CHR ''1'')"

definition flip_bit :: "char \<Rightarrow> char" where
  "flip_bit c = (if c = CHR ''0'' then CHR ''1'' else CHR ''0'')"

definition complement :: "string \<Rightarrow> string" where
  "complement b = map flip_bit b"

section \<open>Outcome distributions\<close>

text \<open>
  An outcome distribution is a Python \<^verbatim>\<open>dict\<close> from bitstrings to integer counts.
  A dict keeps its entries in insertion order and holds every key once, so it is an
  association list with distinct keys; \<^verbatim>\<open>counts.items()\<close> and
  \<^verbatim>\<open>counts.keys()\<close> enumerate it from the front.
\<close>

type_synonym counts = "(string \<times> int) list"

definition is_dict :: "('k \<times> 'v) list \<Rightarrow> bool" where
  "is_dict d \<longleftrightarrow> distinct (map fst d)"

text \<open>
  \<^verbatim>\<open>d[k] = v\<close>: a key that is present keeps its place and gets the new value, a new
  key goes to the end.
\<close>

fun dict_set :: "('k \<times> 'v) list \<Rightarrow> 'k \<Rightarrow> 'v \<Rightarrow> ('k \<times> 'v) list" where
  "dict_set [] k v = [(k, v)]"
| "dict_set ((k', v') # d) k v =
     (if k' = k then (k', v) # d else (k', v') # dict_set d k v)"

text \<open>
  \<^verbatim>\<open>
  def invert_counts(counts):
      return {k[::-1]:v for k, v in counts.items()}
  \<close>
  The comprehension stores \<^verbatim>\<open>k[::-1]\<close> (the reversed string) with \<^verbatim>\<open>v\<close> into a
  new dict, entry after entry.
\<close>

fun invert_loop :: "counts \<Rightarrow> counts \<Rightarrow> counts" where
  "invert_loop [] out = out"
| "invert_loop ((k, v) # rest) out = invert_loop rest (dict_set out (rev k) v)"

definition invert_counts :: "counts \<Rightarrow> counts" where
  "invert_counts counts = invert_loop counts []"

text \<open>
  The distributions the evaluator is meant for: a dict whose keys have one character
  per node of the graph.
\<close>

definition counts_for :: "counts \<Rightarrow> graph \<Rightarrow> bool" where
  "counts_for counts G \<longleftrightarrow>
     is_dict counts \<and> (\<forall>k \<in> set (map fst counts). length k = number_of_nodes G)"

definition total_count :: "counts \<Rightarrow> int" where
  "total_count counts = sum_list (map snd counts)"

section \<open>Energy of a sample\<close>

text \<open>
  \<^verbatim>\<open>
  def compute_maxcut_energy(counts, G):
      energy = 0
      total_counts = 0
      for meas, meas_count in counts.items():
          obj_for_meas = maxcut_obj(meas, G)
          energy += obj_for_meas * meas_count
          total_counts += meas_count
      return energy / total_counts
  \<close>
  Both accumulators are Python integers, which do not overflow. The final \<^verbatim>\<open>/\<close>
  of two integers is Python's true division: it raises \<^verbatim>\<open>ZeroDivisionError\<close> for a
  zero divisor, and otherwise returns the double-precision number nearest to the
  quotient (ties go to the even significand), or raises \<^verbatim>\<open>OverflowError\<close> when
  that number is beyond the largest double.
\<close>

text \<open>
  A finite double is a sign and a magnitude; the magnitude is a rational of the form
  \<open>n * 2^(e - 52)\<close> with \<open>n \<le> 2^53\<close> and \<open>-1022 \<le> e \<le> 1023\<close>. The sign is kept
  apart because Python has two zeros.
\<close>

datatype double = Double (negative: bool) (magnitude: rat)

definition value_of :: "double \<Rightarrow> rat" where
  "value_of d = (if negative d then - magnitude d else magnitude d)"

definition pow2 :: "int \<Rightarrow> rat" where
  "pow2 k = (if 0 \<le> k then 2 ^ nat k else 1 / 2 ^ nat (- k))"

text \<open>
  The binary exponent of a positive rational \<open>q\<close>: the \<open>e\<close> with
  \<open>2^e \<le> q < 2^(e + 1)\<close>, from the bit length of \<open>\<lfloor>q\<rfloor>\<close> when \<open>1 \<le> q\<close> and of
  \<open>\<lceil>1 / q\<rceil> - 1\<close> otherwise.
\<close>

definition floor_log2 :: "rat \<Rightarrow> int" where
  "floor_log2 q = (if 1 \<le> q then bitlen \<lfloor>q\<rfloor> - 1 else - bitlen (\<lceil>1 / q\<rceil> - 1))"

text \<open>Rounding to the nearest integer, a tie to the even one.\<close>

definition round_half_even :: "rat \<Rightarrow> int" where
  "round_half_even x =
     (let f = \<lfloor>x\<rfloor>; r = x - of_int f
      in if r < 1 / 2 then f else if 1 / 2 < r then f + 1
         else if even f then f else f + 1)"

text \<open>
  Rounding a non-negative rational to the magnitude of a double: the unit in the last
  place is \<open>2^(e - 52)\<close> for the exponent \<open>e\<close> of the argument, and \<open>2^(-1074)\<close> below
  the normal range; the argument is rounded to a multiple of it. There is no result
  when the rounded magnitude reaches \<open>2^1024\<close>.
\<close>

definition round_magnitude :: "rat \<Rightarrow> rat option" where
  "round_magnitude q =
     (if q = 0 then Some 0
      else
        let e = max (floor_log2 q) (- 1022);
            ulp = pow2 (e - 52);
            n = round_half_even (q / ulp)
        in if 1023 < e \<or> (e = 1023 \<and> 2 ^ 53 \<le> n) then None
           else Some (of_int n * ulp))"

fun energy_loop :: "counts \<Rightarrow> graph \<Rightarrow> int \<Rightarrow> int \<Rightarrow> error + (int \<times> int)" where
  "energy_loop [] G energy total_counts = Inr (energy, total_counts)"
| "energy_loop ((meas, meas_count) # rest) G energy total_counts =
     (case maxcut_obj meas G of
        Inl e \<Rightarrow> Inl e
      | Inr obj_for_meas \<Rightarrow>
          energy_loop rest G (energy + obj_for_meas * meas_count)
            (total_counts + meas_count))"

text \<open>
  \<^verbatim>\<open>a / b\<close> on two integers. The result is negative when exactly one of the operands
  is; its magnitude is the rounded quotient of the absolute values.
\<close>

definition true_div :: "int \<Rightarrow> int \<Rightarrow> error + double" where
  "true_div a b =
     (if b = 0 then Inl ZeroDivisionError
      else
        (case round_magnitude \<bar>of_int a / of_int b\<bar> of
           None \<Rightarrow> Inl OverflowError
         | Some m \<Rightarrow> Inr (Double ((a < 0) \<noteq> (b < 0)) m)))"

definition compute_maxcut_energy :: "counts \<Rightarrow> graph \<Rightarrow> error + double" where
  "compute_maxcut_energy counts G =
     (case energy_loop counts G 0 0 of
        Inl e \<Rightarrow> Inl e
      | Inr (energy, total_counts) \<Rightarrow> true_div energy total_counts)"

text \<open>
  The specification's description of the energy: the occurrence-weighted mean of the cut
  value, \<open>\<Sum> count(b) * cut_value(b, G) / \<Sum> count(b)\<close>, a rational number; and the
  double nearest to a rational.
\<close>

definition weighted_mean :: "counts \<Rightarrow> graph \<Rightarrow> rat" where
  "weighted_mean counts G =
     of_int (\<Sum>(b, c) \<leftarrow> counts. c * cut_value b G) / of_int (\<Sum>(b, c) \<leftarrow> counts. c)"

definition nearest_double :: "rat \<Rightarrow> error + double" where
  "nearest_double q =
     (case round_magnitude \<bar>q\<bar> of
        None \<Rightarrow> Inl OverflowError
      | Some m \<Rightarrow> Inr (Double (q < 0) m))"

section \<open>Selecting the best sample\<close>

text \<open>
  \<^verbatim>\<open>
  best_cut, best_solution = min([(maxcut_obj(x,G),x) for x in counts.keys()],
                                key=itemgetter(0))
  print(f"Best string: {best_solution} with cut: {-best_cut}")
  \<close>
  The list comprehension evaluates \<^verbatim>\<open>maxcut_obj\<close> on every key, in order. Python's
  \<^verbatim>\<open>min\<close> raises \<^verbatim>\<open>ValueError\<close> on an empty list; otherwise it walks the list
  and replaces the element it holds only by one whose key is strictly smaller.
  \<^verbatim>\<open>itemgetter(0)\<close> is the first component.
\<close>

fun scored_keys :: "string list \<Rightarrow> graph \<Rightarrow> error + (int \<times> string) list" where
  "scored_keys [] G = Inr []"
| "scored_keys (x # xs) G =
     (case maxcut_obj x G of
        Inl e \<Rightarrow> Inl e
      | Inr c \<Rightarrow>
          (case scored_keys xs G of
             Inl e \<Rightarrow> Inl e
           | Inr r \<Rightarrow> Inr ((c, x) # r)))"

fun min_loop :: "('a \<Rightarrow> int) \<Rightarrow> 'a \<Rightarrow> 'a list \<Rightarrow> 'a" where
  "min_loop key best [] = best"
| "min_loop key best (y # ys) = min_loop key (if key y < key best then y else best) ys"

definition py_min :: "('a \<Rightarrow> int) \<Rightarrow> 'a list \<Rightarrow> error + 'a" where
  "py_min key xs = (case xs of [] \<Rightarrow> Inl ValueError | x # ys \<Rightarrow> Inr (min_loop key x ys))"

definition best_selection :: "counts \<Rightarrow> graph \<Rightarrow> error + (int \<times> string)" where
  "best_selection counts G =
     (case scored_keys (map fst counts) G of
        Inl e \<Rightarrow> Inl e
      | Inr scored \<Rightarrow> py_min fst scored)"

text \<open>What the cell prints: the best string and \<^verbatim>\<open>-best_cut\<close>.\<close>

definition best_report :: "counts \<Rightarrow> graph \<Rightarrow> error + (string \<times> int)" where
  "best_report counts G =
     (case best_selection counts G of
        Inl e \<Rightarrow> Inl e
      | Inr (best_cut, best_solution) \<Rightarrow> Inr (best_solution, - best_cut))"

section \<open>Circuits\<close>

text \<open>
  A \<^verbatim>\<open>QuantumCircuit(N, N)\<close> is modelled by its register sizes and the list of
  instructions appended so far. The instructions are those the notebook issues:
  Hadamard, controlled-NOT (control, target), the rotations \<^verbatim>\<open>rz\<close> and \<^verbatim>\<open>rx\<close>
  (angle, line), a barrier over a list of lines, and the measurement of a line into a
  classical bit. Angles are real numbers.
\<close>

datatype instruction =
    H nat
  | CX nat nat
  | RZ real nat
  | RX real nat
  | Barrier "nat list"
  | Measure nat nat

record circuit =
  num_qubits :: nat
  num_clbits :: nat
  data :: "instruction list"

definition QuantumCircuit :: "nat \<Rightarrow> nat \<Rightarrow> circuit" where
  "QuantumCircuit n m = \<lparr>num_qubits = n, num_clbits = m, data = []\<rparr>"

definition append_instructions :: "circuit \<Rightarrow> instruction list \<Rightarrow> circuit" where
  "append_instructions qc ins = qc\<lparr>data := data qc @ ins\<rparr>"

text \<open>
  The circuit methods the notebook calls. Each one appends its instructions; the library
  rejects a line index outside the register, a two-line gate on twice the same line and
  a gate on an empty list of lines with \<^verbatim>\<open>CircuitError\<close>. A method given
  \<^verbatim>\<open>range(n)\<close> appends one instruction per line (one barrier over all of them);
  \<^verbatim>\<open>barrier()\<close> without arguments spans the whole register;
  \<^verbatim>\<open>compose(other, inplace=True)\<close> appends the instructions of a circuit that is
  not wider.
\<close>

definition cx :: "circuit \<Rightarrow> nat \<Rightarrow> nat \<Rightarrow> error + circuit" where
  "cx qc q1 q2 =
     (if q1 < num_qubits qc \<and> q2 < num_qubits qc \<and> q1 \<noteq> q2
      then Inr (append_instructions qc [CX q1 q2]) else Inl CircuitError)"

definition rz :: "circuit \<Rightarrow> real \<Rightarrow> nat \<Rightarrow> error + circuit" where
  "rz qc theta q =
     (if q < num_qubits qc then Inr (append_instructions qc [RZ theta q])
      else Inl CircuitError)"

definition rx :: "circuit \<Rightarrow> real \<Rightarrow> nat \<Rightarrow> error + circuit" where
  "rx qc theta q =
     (if q < num_qubits qc then Inr (append_instructions qc [RX theta q])
      else Inl CircuitError)"

definition h_range :: "circuit \<Rightarrow> nat \<Rightarrow> error + circuit" where
  "h_range qc n =
     (if 0 < n \<and> n \<le> num_qubits qc then Inr (append_instructions qc (map H [0..<n]))
      else Inl CircuitError)"

definition barrier :: "circuit \<Rightarrow> circuit" where
  "barrier qc = append_instructions qc [Barrier [0..<num_qubits qc]]"

definition barrier_range :: "circuit \<Rightarrow> nat \<Rightarrow> error + circuit" where
  "barrier_range qc n =
     (if n \<le> num_qubits qc then Inr (append_instructions qc [Barrier [0..<n]])
      else Inl CircuitError)"

definition measure_range :: "circuit \<Rightarrow> nat \<Rightarrow> error + circuit" where
  "measure_range qc n =
     (if n \<le> num_qubits qc \<and> n \<le> num_clbits qc
      then Inr (append_instructions qc (map (\<lambda>q. Measure q q) [0..<n]))
      else Inl CircuitError)"

definition compose :: "circuit \<Rightarrow> circuit \<Rightarrow> error + circuit" where
  "compose qc other =
     (if num_qubits other \<le> num_qubits qc \<and> num_clbits other \<le> num_clbits qc
      then Inr (append_instructions qc (data other)) else Inl CircuitError)"

text \<open>
  \<^verbatim>\<open>
  def append_zz_term(qc:QuantumCircuit, q1, q2, gamma):
      qc.cx(q1,q2)
      qc.rz(2*gamma, q2)
      qc.cx(q1,q2)

  def get_cost_operator_circuit(G, gamma):
      N = G.number_of_nodes()
      qc = QuantumCircuit(N,N)
      for i, j in G.edges():
          append_zz_term(qc, i, j, gamma)
          qc.barrier()
      return qc
  \<close>
\<close>

definition append_zz_term :: "circuit \<Rightarrow> nat \<Rightarrow> nat \<Rightarrow> real \<Rightarrow> error + circuit" where
  "append_zz_term qc q1 q2 gamma =
     (case cx qc q1 q2 of
        Inl e \<Rightarrow> Inl e
      | Inr qc1 \<Rightarrow>
          (case rz qc1 (2 * gamma) q2 of
             Inl e \<Rightarrow> Inl e
           | Inr qc2 \<Rightarrow> cx qc2 q1 q2))"

fun cost_loop :: "circuit \<Rightarrow> (nat \<times> nat) list \<Rightarrow> real \<Rightarrow> error + circuit" where
  "cost_loop qc [] gamma = Inr qc"
| "cost_loop qc ((i, j) # es) gamma =
     (case append_zz_term qc i j gamma of
        Inl e \<Rightarrow> Inl e
      | Inr qc1 \<Rightarrow> cost_loop (barrier qc1) es gamma)"

definition get_cost_operator_circuit :: "graph \<Rightarrow> real \<Rightarrow> error + circuit" where
  "get_cost_operator_circuit G gamma =
     (let N = number_of_nodes G; qc = QuantumCircuit N N
      in cost_loop qc (edges G) gamma)"

text \<open>
  \<^verbatim>\<open>
  def append_x_term(qc, q1, beta):
      qc.rx(2*beta, q1)

  def get_mixer_operator_circuit(G, beta):
      N = G.number_of_nodes()
      qc = QuantumCircuit(N,N)
      for n in G.nodes():
          append_x_term(qc, n, beta)
      return qc
  \<close>
\<close>

definition append_x_term :: "circuit \<Rightarrow> nat \<Rightarrow> real \<Rightarrow> error + circuit" where
  "append_x_term qc q1 beta = rx qc (2 * beta) q1"

fun mixer_loop :: "circuit \<Rightarrow> nat list \<Rightarrow> real \<Rightarrow> error + circuit" where
  "mixer_loop qc [] beta = Inr qc"
| "mixer_loop qc (n # ns) beta =
     (case append_x_term qc n beta of
        Inl e \<Rightarrow> Inl e
      | Inr qc1 \<Rightarrow> mixer_loop qc1 ns beta)"

definition get_mixer_operator_circuit :: "graph \<Rightarrow> real \<Rightarrow> error + circuit" where
  "get_mixer_operator_circuit G beta =
     (let N = number_of_nodes G; qc = QuantumCircuit N N
      in mixer_loop qc (nodes G) beta)"

text \<open>
  \<^verbatim>\<open>
  def get_qaoa_circuit(G, beta, gamma):
      assert(len(beta) == len(gamma))
      p = len(beta) # infering number of QAOA steps from the parameters passed
      N = G.number_of_nodes()
      qc = QuantumCircuit(N,N)
      # first, apply a layer of Hadamards
      qc.h(range(N))
      # second, apply p alternating operators
      for i in range(p):
          qc.compose(get_cost_operator_circuit(G,gamma[i]), inplace=True)
          qc.compose(get_mixer_operator_circuit(G,beta[i]), inplace=True)
      # finally, do not forget to measure the result!
      qc.barrier(range(N))
      qc.measure(range(N), range(N))
      return qc
  \<close>
  A failing \<^verbatim>\<open>assert\<close> raises \<^verbatim>\<open>AssertionError\<close>. The loop runs over the indices
  \<open>0, ..., p - 1\<close> and reads \<^verbatim>\<open>gamma[i]\<close> before \<^verbatim>\<open>beta[i]\<close>.
\<close>

fun qaoa_loop :: "circuit \<Rightarrow> graph \<Rightarrow> real list \<Rightarrow> real list \<Rightarrow> nat list \<Rightarrow> error + circuit" where
  "qaoa_loop qc G beta gamma [] = Inr qc"
| "qaoa_loop qc G beta gamma (i # is) =
     (case getitem gamma i of
        Inl e \<Rightarrow> Inl e
      | Inr g \<Rightarrow>
     (case get_cost_operator_circuit G g of
        Inl e \<Rightarrow> Inl e
      | Inr cost \<Rightarrow>
     (case compose qc cost of
        Inl e \<Rightarrow> Inl e
      | Inr qc1 \<Rightarrow>
     (case getitem beta i of
        Inl e \<Rightarrow> Inl e
      | Inr b \<Rightarrow>
     (case get_mixer_operator_circuit G b of
        Inl e \<Rightarrow> Inl e
      | Inr mixer \<Rightarrow>
     (case compose qc1 mixer of
        Inl e \<Rightarrow> Inl e
      | Inr qc2 \<Rightarrow> qaoa_loop qc2 G beta gamma is))))))"

definition get_qaoa_circuit :: "graph \<Rightarrow> real list \<Rightarrow> real list \<Rightarrow> error + circuit" where
  "get_qaoa_circuit G beta gamma =
     (if length beta \<noteq> length gamma then Inl AssertionError
      else
        let p = length beta; N = number_of_nodes G; qc = QuantumCircuit N N
        in (case h_range qc N of
              Inl e \<Rightarrow> Inl e
            | Inr qc1 \<Rightarrow>
           (case qaoa_loop qc1 G beta gamma [0..<p] of
              Inl e \<Rightarrow> Inl e
            | Inr qc2 \<Rightarrow>
           (case barrier_range qc2 N of
              Inl e \<Rightarrow> Inl e
            | Inr qc3 \<Rightarrow> measure_range qc3 N))))"

text \<open>
  The layers in the specification's terms, as instruction lists: the superposition
  layer, one cost layer (for every edge the three instructions of the coupling term and
  the separating barrier), one mixer layer (a rotation for every node), and the final
  measurement of all lines.
\<close>

definition hadamard_layer :: "graph \<Rightarrow> instruction list" where
  "hadamard_layer G = map H [0..<number_of_nodes G]"

definition zz_term :: "nat \<Rightarrow> nat \<Rightarrow> real \<Rightarrow> instruction list" where
  "zz_term i j gamma = [CX i j, RZ (2 * gamma) j, CX i j]"

definition cost_layer :: "graph \<Rightarrow> real \<Rightarrow> instruction list" where
  "cost_layer G gamma =
     concat (map (\<lambda>(i, j). zz_term i j gamma @ [Barrier [0..<number_of_nodes G]]) (edges G))"

definition mixer_layer :: "graph \<Rightarrow> real \<Rightarrow> instruction list" where
  "mixer_layer G beta = map (\<lambda>n. RX (2 * beta) n) (nodes G)"

definition measurement_layer :: "graph \<Rightarrow> instruction list" where
  "measurement_layer G = map (\<lambda>q. Measure q q) [0..<number_of_nodes G]"

definition alternating_layers :: "graph \<Rightarrow> real list \<Rightarrow> real list \<Rightarrow> instruction list" where
  "alternating_layers G beta gamma =
     concat (map (\<lambda>l. cost_layer G (gamma ! l) @ mixer_layer G (beta ! l)) [0..<length beta])"

section \<open>Sample inputs\<close>

text \<open>
  A distribution over the notebook's graph with two optimal bitstrings, the same
  distribution with its entries in another order, a distribution whose counts add up to
  zero, the graph with two nodes joined by one edge, and the graph without nodes.
\<close>

definition demo_counts :: counts where
  "demo_counts = [(''00000'', 3), (''11100'', 4), (''10000'', 7), (''00011'', 1)]"

definition demo_counts_reordered :: counts where
  "demo_counts_reordered = [(''00011'', 1), (''10000'', 7), (''00000'', 3), (''11100'', 4)]"

definition zero_counts :: counts where
  "zero_counts = [(''00011'', 0), (''11100'', 0)]"

definition G_pair :: graph where
  "G_pair = \<lparr>nodes = [0, 1], edges = [(0, 1)]\<rparr>"

definition G_empty :: graph where
  "G_empty = \<lparr>nodes = [], edges = []\<rparr>"

section \<open>Properties of the classical objective\<close>

lemma valid_graph_G_demo: "valid_graph G_demo"
  by (simp add: valid_graph_def G_demo_def)

lemma valid_graph_edge_bounds:
  assumes "valid_graph G" and "(i, j) \<in> set (edges G)"
  shows "i < number_of_nodes G" and "j < number_of_nodes G" and "i \<noteq> j"
  using assms unfolding valid_graph_def number_of_nodes_def by auto

lemma maxcut_loop_in_range:
  assumes "\<forall>(i, j) \<in> set es. i < length x \<and> j < length x"
  shows "maxcut_loop x es a =
           Inr (a - int (length (filter (\<lambda>(i, j). x ! i \<noteq> x ! j) es)))"
  using assms
proof (induction es arbitrary: a)
  case Nil
  show ?case by simp
next
  case (Cons e es)
  obtain i j where e: "e = (i, j)" by (cases e)
  from Cons.prems e have ij: "i < length x" "j < length x"
    and rest: "\<forall>(i, j) \<in> set es. i < length x \<and> j < length x"
    by auto
  show ?case
    using Cons.IH [OF rest] ij by (simp add: e getitem_def)
qed

lemma edge_sum_filter:
  "(\<Sum>(i, j) \<leftarrow> es. if x ! i \<noteq> x ! j then - 1 else 0) =
     - int (length (filter (\<lambda>(i, j). x ! i \<noteq> x ! j) es))"
  by (induction es) auto

lemma maxcut_obj_cut_value:
  assumes "valid_graph G" and "length b = number_of_nodes G"
  shows "maxcut_obj b G = Inr (cut_value b G)"
proof -
  have "\<forall>(i, j) \<in> set (edges G). i < length b \<and> j < length b"
    using assms valid_graph_edge_bounds by fastforce
  from maxcut_loop_in_range [OF this, of 0]
  show ?thesis by (simp add: maxcut_obj_def cut_value_def edge_sum_filter)
qed

lemma maxcut_loop_error: "maxcut_loop x es a = Inl e \<Longrightarrow> e = IndexError"
  by (induction x es a rule: maxcut_loop.induct)
     (auto simp: getitem_def split: if_splits sum.splits)

lemma maxcut_obj_error: "maxcut_obj x G = Inl e \<Longrightarrow> e = IndexError"
  unfolding maxcut_obj_def by (rule maxcut_loop_error)

text \<open>The call the notebook itself makes, and a bitstring that is too short.\<close>

lemma maxcut_obj_notebook_call: "maxcut_obj ''00011'' G_demo = Inr (- 6)"
  by (simp add: maxcut_obj_def G_demo_def getitem_def)

lemma maxcut_obj_short_string: "maxcut_obj ''0001'' G_demo = Inl IndexError"
  by (simp add: maxcut_obj_def G_demo_def getitem_def)

text \<open>
  Claim C1. For a graph \<open>G\<close> and a bitstring \<open>b\<close> with one character per node,
  \<^verbatim>\<open>maxcut_obj\<close> returns a value that is at most 0, and the negation of that value
  is the number of edges \<open>(i, j)\<close> of \<open>G\<close> whose endpoint bits \<open>b[i]\<close> and \<open>b[j]\<close>
  differ.
\<close>

theorem maxcut_obj_counts_cut_edges:
  assumes "valid_graph G" and "length b = number_of_nodes G"
  shows "\<exists>c. maxcut_obj b G = Inr c \<and> c \<le> 0 \<and>
             - c = int (length (filter (\<lambda>(i, j). b ! i \<noteq> b ! j) (edges G)))"
proof -
  have "\<forall>(i, j) \<in> set (edges G). i < length b \<and> j < length b"
    using assms valid_graph_edge_bounds by fastforce
  from maxcut_loop_in_range [OF this, of 0]
  show ?thesis by (simp add: maxcut_obj_def)
qed

theorem maxcut_obj_counts_cut_edges_witness:
  "valid_graph G_demo \<and> length ''00011'' = number_of_nodes G_demo \<and>
   (\<exists>c. maxcut_obj ''00011'' G_demo = Inr c \<and> c \<le> 0 \<and>
         - c = int (length (filter (\<lambda>(i, j). ''00011'' ! i \<noteq> ''00011'' ! j)
                              (edges G_demo))))"
proof -
  have len: "length ''00011'' = number_of_nodes G_demo"
    by (simp add: number_of_nodes_def G_demo_def)
  from maxcut_obj_counts_cut_edges [OF valid_graph_G_demo len]
  show ?thesis using valid_graph_G_demo len by blast
qed

lemma flip_bit_differs:
  assumes "is_bitstring b" and "i < length b" and "j < length b"
  shows "flip_bit (b ! i) \<noteq> flip_bit (b ! j) \<longleftrightarrow> b ! i \<noteq> b ! j"
proof -
  have "b ! i \<in> set b" and "b ! j \<in> set b" using assms by simp_all
  with assms(1) have "b ! i = CHR ''0'' \<or> b ! i = CHR ''1''"
    and "b ! j = CHR ''0'' \<or> b ! j = CHR ''1''"
    by (auto simp: is_bitstring_def)
  then show ?thesis by (auto simp: flip_bit_def)
qed

lemma maxcut_loop_complement:
  assumes "is_bitstring b"
  shows "maxcut_loop (complement b) es a = maxcut_loop b es a"
proof (induction es arbitrary: a)
  case Nil
  show ?case by simp
next
  case (Cons e es)
  obtain i j where e: "e = (i, j)" by (cases e)
  show ?case
  proof (cases "i < length b \<and> j < length b")
    case True
    with flip_bit_differs [OF assms, of i j] show ?thesis
      by (simp add: e getitem_def complement_def Cons.IH [unfolded complement_def])
  next
    case False
    then show ?thesis by (auto simp: e getitem_def complement_def)
  qed
qed

text \<open>
  Claim C10. For a graph \<open>G\<close> and a bitstring \<open>b\<close> over the characters 0 and 1,
  \<^verbatim>\<open>maxcut_obj\<close> gives the same result on \<open>b\<close> and on the bitstring with every bit
  of \<open>b\<close> flipped: swapping the two sides of the cut does not change the objective.
  This holds for every length of \<open>b\<close>: where one call raises \<^verbatim>\<open>IndexError\<close>, so does
  the other.
\<close>

theorem maxcut_obj_complement:
  assumes "is_bitstring b"
  shows "maxcut_obj (complement b) G = maxcut_obj b G"
  unfolding maxcut_obj_def using assms by (rule maxcut_loop_complement)

theorem maxcut_obj_complement_witness:
  "is_bitstring ''00011'' \<and> complement ''00011'' = ''11100'' \<and>
   maxcut_obj ''11100'' G_demo = maxcut_obj ''00011'' G_demo"
proof -
  have bits: "is_bitstring ''00011''" by (simp add: is_bitstring_def)
  have flipped: "complement ''00011'' = ''11100''"
    by (simp add: complement_def flip_bit_def)
  from maxcut_obj_complement [OF bits, of G_demo] bits flipped
  show ?thesis by simp
qed

section \<open>Properties of the bit-order normalizer\<close>

lemma dict_set_fresh: "k \<notin> fst ` set d \<Longrightarrow> dict_set d k v = d @ [(k, v)]"
  by (induction d) auto

lemma invert_loop_fresh:
  assumes "distinct (map fst rest)" and "rev ` fst ` set rest \<inter> fst ` set out = {}"
  shows "invert_loop rest out = out @ map (\<lambda>(k, v). (rev k, v)) rest"
  using assms
proof (induction rest arbitrary: out)
  case Nil
  show ?case by simp
next
  case (Cons e rest)
  obtain k v where e: "e = (k, v)" by (cases e)
  from Cons.prems e have fresh: "rev k \<notin> fst ` set out" by auto
  have d: "distinct (map fst rest)" using Cons.prems by simp
  have "rev ` fst ` set rest \<inter> fst ` set (out @ [(rev k, v)]) = {}"
    using Cons.prems e by (auto simp: image_iff)
  from Cons.IH [OF d this] show ?case
    by (simp add: e dict_set_fresh [OF fresh])
qed

lemma invert_counts_map:
  "is_dict d \<Longrightarrow> invert_counts d = map (\<lambda>(k, v). (rev k, v)) d"
  by (simp add: invert_counts_def is_dict_def invert_loop_fresh)

lemma keys_invert: "map fst (map (\<lambda>(k, v). (rev k, v)) d) = map rev (map fst d)"
  by (induction d) auto

lemma values_invert: "map snd (map (\<lambda>(k, v). (rev k, v)) d) = map snd d"
  by (induction d) auto

lemma is_dict_invert:
  assumes "is_dict d"
  shows "is_dict (invert_counts d)"
proof -
  have "inj_on rev (set (map fst d))" by (simp add: inj_on_def)
  moreover have "distinct (map fst d)" using assms by (simp add: is_dict_def)
  ultimately have "distinct (map rev (map fst d))" by (simp only: distinct_map simp_thms)
  then show ?thesis
    by (simp only: invert_counts_map [OF assms] is_dict_def keys_invert)
qed

lemma map_rev_rev:
  "map (\<lambda>(k, v). (rev k, v)) (map (\<lambda>(k, v). (rev k, v)) d) = (d :: counts)"
  by (induction d) auto

lemma is_dict_demo_counts: "is_dict demo_counts"
  by (simp add: is_dict_def demo_counts_def)

text \<open>
  A key that is written twice keeps its first place and its last value; this is the
  case that \<^verbatim>\<open>invert_counts\<close> never meets on a dict, whose keys are distinct.
\<close>

lemma dict_set_overwrites:
  "dict_set [(''01'', 3), (''10'', 4)] ''01'' (7::int) = [(''01'', 7), (''10'', 4)]"
  by simp

lemma invert_counts_demo:
  "invert_counts demo_counts =
     [(''00000'', 3), (''00111'', 4), (''00001'', 7), (''11000'', 1)]"
  by (simp add: invert_counts_def demo_counts_def)

text \<open>
  Claim C4. \<^verbatim>\<open>invert_counts\<close> is an involution: for every outcome distribution \<open>d\<close>
  (a dict from bitstrings to counts), applying it twice gives back \<open>d\<close>, with the
  entries in their original order.
\<close>

theorem invert_counts_involution:
  assumes "is_dict d"
  shows "invert_counts (invert_counts d) = d"
proof -
  have "invert_counts (invert_counts d) = map (\<lambda>(k, v). (rev k, v)) (invert_counts d)"
    using is_dict_invert [OF assms] by (rule invert_counts_map)
  also have "\<dots> = map (\<lambda>(k, v). (rev k, v)) (map (\<lambda>(k, v). (rev k, v)) d)"
    by (simp only: invert_counts_map [OF assms])
  also have "\<dots> = d" by (rule map_rev_rev)
  finally show ?thesis .
qed

theorem invert_counts_involution_witness:
  "is_dict demo_counts \<and> invert_counts (invert_counts demo_counts) = demo_counts"
  using invert_counts_involution [OF is_dict_demo_counts] is_dict_demo_counts by simp

text \<open>
  Claim C9. \<^verbatim>\<open>invert_counts\<close> preserves the number of entries and the total count of
  an outcome distribution: the keys of the result are the reversed keys of the input, in
  the same order and again pairwise different (no two keys collide), every count is
  carried over unchanged, and so the counts add up to the same total.
\<close>

theorem invert_counts_preserves:
  assumes "is_dict d"
  shows "length (invert_counts d) = length d \<and>
         map fst (invert_counts d) = map rev (map fst d) \<and>
         distinct (map fst (invert_counts d)) \<and>
         map snd (invert_counts d) = map snd d \<and>
         total_count (invert_counts d) = total_count d"
proof -
  have "distinct (map fst (invert_counts d))"
    using is_dict_invert [OF assms] by (simp add: is_dict_def)
  then show ?thesis
    by (simp add: invert_counts_map [OF assms] keys_invert values_invert total_count_def
          del: map_map)
qed

theorem invert_counts_preserves_witness:
  "is_dict demo_counts \<and>
   length (invert_counts demo_counts) = 4 \<and>
   map fst (invert_counts demo_counts) = [''00000'', ''00111'', ''00001'', ''11000''] \<and>
   distinct (map fst (invert_counts demo_counts)) \<and>
   map snd (invert_counts demo_counts) = [3, 4, 7, 1] \<and>
   total_count (invert_counts demo_counts) = 15"
proof -
  have "length demo_counts = 4" and "map rev (map fst demo_counts) =
      [''00000'', ''00111'', ''00001'', ''11000'']"
    and "map snd demo_counts = [3, 4, 7, 1]" and "total_count demo_counts = 15"
    by (simp_all add: demo_counts_def total_count_def)
  with invert_counts_preserves [OF is_dict_demo_counts] is_dict_demo_counts
  show ?thesis by simp
qed

section \<open>Properties of the energy\<close>

lemma energy_loop_sums:
  assumes "valid_graph G" and "\<forall>k \<in> set (map fst d). length k = number_of_nodes G"
  shows "energy_loop d G e t =
           Inr (e + (\<Sum>(b, c) \<leftarrow> d. c * cut_value b G), t + (\<Sum>(b, c) \<leftarrow> d. c))"
  using assms(2)
proof (induction d arbitrary: e t)
  case Nil
  show ?case by simp
next
  case (Cons p d)
  obtain k v where p: "p = (k, v)" by (cases p)
  from Cons.prems p have len: "length k = number_of_nodes G"
    and rest: "\<forall>k \<in> set (map fst d). length k = number_of_nodes G"
    by auto
  show ?case
    by (simp add: p maxcut_obj_cut_value [OF assms(1) len] Cons.IH [OF rest] mult.commute)
qed

lemma sum_counts_total: "(\<Sum>(b, c) \<leftarrow> counts. c) = total_count counts"
  by (simp add: total_count_def split_def)

lemma energy_loop_general:
  "energy_loop d G e t =
     (if \<exists>p \<in> set d. maxcut_obj (fst p) G = Inl IndexError then Inl IndexError
      else Inr (e + sum_list (map (\<lambda>p. (case maxcut_obj (fst p) G of
                                           Inl err \<Rightarrow> 0 | Inr c \<Rightarrow> c) * snd p) d),
                t + sum_list (map snd d)))"
proof (induction d arbitrary: e t)
  case Nil
  show ?case by simp
next
  case (Cons p d)
  obtain k v where p: "p = (k, v)" by (cases p)
  show ?case
  proof (cases "maxcut_obj k G")
    case (Inl err)
    then have "maxcut_obj k G = Inl IndexError" using maxcut_obj_error by blast
    then show ?thesis by (simp add: p)
  next
    case (Inr c)
    then show ?thesis by (simp add: p Cons.IH)
  qed
qed

lemma sum_list_mset_cong:
  fixes f :: "'a \<Rightarrow> int"
  assumes "mset xs = mset ys"
  shows "sum_list (map f xs) = sum_list (map f ys)"
proof -
  have "sum_list (map f xs) = sum_mset (image_mset f (mset xs))"
    by (simp add: sum_mset_sum_list [symmetric])
  also have "\<dots> = sum_mset (image_mset f (mset ys))" using assms by simp
  also have "\<dots> = sum_list (map f ys)" by (simp add: sum_mset_sum_list [symmetric])
  finally show ?thesis .
qed

lemma counts_for_demo_counts: "counts_for demo_counts G_demo"
  by (simp add: counts_for_def is_dict_def demo_counts_def number_of_nodes_def G_demo_def)

lemma counts_for_zero_counts: "counts_for zero_counts G_demo"
  by (simp add: counts_for_def is_dict_def zero_counts_def number_of_nodes_def G_demo_def)

text \<open>
  Facts about the rounding: the bracket that defines the binary exponent, the distance
  of a rounded integer, and the distance of a rounded magnitude from its argument (half
  a unit in the last place, which in the normal range is at most the argument times
  \<open>2^(-53)\<close>).
\<close>

lemma pow2_pos: "0 < pow2 k"
  by (simp add: pow2_def)

lemma pow2_Suc: "pow2 (k + 1) = 2 * pow2 k"
proof (cases "0 \<le> k")
  case True
  then show ?thesis by (simp add: pow2_def nat_add_distrib)
next
  case False
  then have "nat (- k) = Suc (nat (- (k + 1)))" by simp
  then show ?thesis using False by (simp add: pow2_def)
qed

lemma pow2_add_nat: "pow2 (k + int n) = 2 ^ n * pow2 k"
proof (induction n)
  case 0
  show ?case by simp
next
  case (Suc n)
  have "k + int (Suc n) = (k + int n) + 1" by simp
  then have "pow2 (k + int (Suc n)) = pow2 ((k + int n) + 1)" by (simp only:)
  also have "\<dots> = 2 * pow2 (k + int n)" by (rule pow2_Suc)
  finally show ?case by (simp add: Suc.IH)
qed

lemma bitlen_bounds_rat:
  assumes "0 < m"
  shows "(2::rat) ^ nat (bitlen m - 1) \<le> of_int m"
    and "of_int m + 1 \<le> (2::rat) ^ nat (bitlen m)"
proof -
  from bitlen_bounds [OF assms]
  have lo: "2 ^ nat (bitlen m - 1) \<le> m" and hi: "m + 1 \<le> 2 ^ nat (bitlen m)" by simp_all
  from lo have "(of_int (2 ^ nat (bitlen m - 1)) :: rat) \<le> of_int m"
    by (simp only: of_int_le_iff)
  then show "(2::rat) ^ nat (bitlen m - 1) \<le> of_int m" by simp
  from hi have "(of_int (m + 1) :: rat) \<le> of_int (2 ^ nat (bitlen m))"
    by (simp only: of_int_le_iff)
  then show "of_int m + 1 \<le> (2::rat) ^ nat (bitlen m)" by simp
qed

lemma floor_log2_bounds:
  assumes "0 < q"
  shows "pow2 (floor_log2 q) \<le> q \<and> q < pow2 (floor_log2 q + 1)"
proof (cases "1 \<le> q")
  case True
  let ?m = "\<lfloor>q\<rfloor>"
  have m: "0 < ?m" using True by simp
  have L: "1 \<le> bitlen ?m" using m by (simp add: bitlen_alt_def)
  have e: "floor_log2 q = bitlen ?m - 1" using True by (simp add: floor_log2_def)
  have "of_int ?m \<le> q" and "q < of_int ?m + 1" by linarith+
  with bitlen_bounds_rat [OF m]
  have "2 ^ nat (bitlen ?m - 1) \<le> q" and "q < 2 ^ nat (bitlen ?m)"
    by linarith+
  then show ?thesis using L by (simp add: e pow2_def)
next
  case False
  let ?k = "\<lceil>1 / q\<rceil> - 1"
  from False assms have x: "1 < 1 / q" by simp
  then have k: "0 < ?k" by linarith
  have L: "1 \<le> bitlen ?k" using k by (simp add: bitlen_alt_def)
  have e: "floor_log2 q = - bitlen ?k" using False by (simp add: floor_log2_def)
  have "of_int ?k < 1 / q" and "1 / q \<le> of_int ?k + 1" by linarith+
  with bitlen_bounds_rat [OF k] have lo: "2 ^ nat (bitlen ?k - 1) < 1 / q"
    and hi: "1 / q \<le> 2 ^ nat (bitlen ?k)"
    by linarith+
  from hi assms have 1: "1 / 2 ^ nat (bitlen ?k) \<le> q"
    by (simp add: field_simps)
  from lo assms have 2: "q < 1 / 2 ^ nat (bitlen ?k - 1)"
    by (simp add: field_simps)
  have n: "nat (- (1 - bitlen ?k)) = nat (bitlen ?k - 1)" by simp
  show ?thesis
  proof (cases "bitlen ?k = 1")
    case True
    with 1 2 show ?thesis by (simp add: e pow2_def)
  next
    case False
    with L have "\<not> 0 \<le> 1 - bitlen ?k" by simp
    with 1 2 L show ?thesis by (simp add: e pow2_def n)
  qed
qed

lemma round_half_even_close: "\<bar>of_int (round_half_even x) - x\<bar> \<le> 1 / 2"
proof -
  have "of_int \<lfloor>x\<rfloor> \<le> x" and "x < of_int \<lfloor>x\<rfloor> + 1" by linarith+
  then show ?thesis by (auto simp: round_half_even_def Let_def abs_le_iff)
qed

lemma round_magnitude_close:
  assumes "0 < q" and "round_magnitude q = Some m"
  shows "\<bar>m - q\<bar> \<le> pow2 (max (floor_log2 q) (- 1022) - 53)"
proof -
  let ?e = "max (floor_log2 q) (- 1022)"
  let ?ulp = "pow2 (?e - 52)"
  let ?n = "round_half_even (q / ?ulp)"
  have ulp: "?ulp = 2 * pow2 (?e - 53)"
    using pow2_Suc [of "?e - 53"] by simp
  have pos: "0 < ?ulp" by (rule pow2_pos)
  from assms have m: "m = of_int ?n * ?ulp"
    by (auto simp: round_magnitude_def Let_def split: if_splits)
  have "\<bar>of_int ?n - q / ?ulp\<bar> * ?ulp \<le> 1 / 2 * ?ulp"
    using round_half_even_close [of "q / ?ulp"] pos by (intro mult_right_mono) simp_all
  moreover have "\<bar>of_int ?n - q / ?ulp\<bar> * ?ulp = \<bar>of_int ?n * ?ulp - q\<bar>"
  proof -
    have "\<bar>of_int ?n - q / ?ulp\<bar> * ?ulp = \<bar>(of_int ?n - q / ?ulp) * ?ulp\<bar>"
      using pos by (simp add: abs_mult)
    also have "(of_int ?n - q / ?ulp) * ?ulp = of_int ?n * ?ulp - q"
      using pos by (simp add: field_simps)
    finally show ?thesis .
  qed
  ultimately have "\<bar>m - q\<bar> \<le> 1 / 2 * ?ulp" by (simp only: m)
  then show ?thesis by (simp add: ulp)
qed

lemma round_magnitude_relative:
  assumes "pow2 (- 1022) \<le> q" and "round_magnitude q = Some m"
  shows "\<bar>m - q\<bar> \<le> q / 2 ^ 53"
proof -
  have q: "0 < q" using assms(1) pow2_pos [of "- 1022"] by linarith
  have lo: "pow2 (floor_log2 q) \<le> q" using floor_log2_bounds [OF q] by simp
  have "- 1022 \<le> floor_log2 q"
  proof (rule ccontr)
    assume "\<not> - 1022 \<le> floor_log2 q"
    then have "floor_log2 q + 1 + int (nat (- 1022 - (floor_log2 q + 1))) = - 1022" by simp
    with pow2_add_nat [of "floor_log2 q + 1" "nat (- 1022 - (floor_log2 q + 1))"]
    have "pow2 (- 1022) = 2 ^ nat (- 1022 - (floor_log2 q + 1)) * pow2 (floor_log2 q + 1)"
      by simp
    moreover have "(1::rat) \<le> 2 ^ nat (- 1022 - (floor_log2 q + 1))" by simp
    ultimately have "pow2 (floor_log2 q + 1) \<le> pow2 (- 1022)"
      using pow2_pos [of "floor_log2 q + 1"] by (simp add: mult_le_cancel_right1)
    with floor_log2_bounds [OF q] assms(1) show False by linarith
  qed
  then have e: "max (floor_log2 q) (- 1022) = floor_log2 q" by simp
  have "pow2 (floor_log2 q - 53 + int 53) = 2 ^ 53 * pow2 (floor_log2 q - 53)"
    by (rule pow2_add_nat)
  then have "pow2 (floor_log2 q - 53) = pow2 (floor_log2 q) / 2 ^ 53" by simp
  also have "\<dots> \<le> q / 2 ^ 53" using lo by (simp add: divide_right_mono)
  finally show ?thesis using round_magnitude_close [OF q assms(2)] by (simp add: e)
qed

text \<open>Evaluating the rounding on numerals.\<close>

lemma bitlen_one: "bitlen 1 = 1"
  by (subst compute_bitlen) simp

lemma bitlen_Bit0: "bitlen (numeral (Num.Bit0 k)) = bitlen (numeral k) + 1"
  by (subst compute_bitlen) simp

lemma bitlen_Bit1: "bitlen (numeral (Num.Bit1 k)) = bitlen (numeral k) + 1"
  by (subst compute_bitlen) simp

lemma floor_rat_numeral_div:
  "\<lfloor>numeral a / numeral b :: rat\<rfloor> = numeral a div numeral b"
  by (metis floor_divide_of_int_eq of_int_numeral)

lemma ceiling_rat_numeral_div:
  "\<lceil>numeral a / numeral b :: rat\<rceil> = - (- numeral a div numeral b)"
  by (metis ceiling_def floor_divide_of_int_eq minus_divide_left of_int_minus of_int_numeral)

lemma floor_rat_one_div: "\<lfloor>1 / numeral b :: rat\<rfloor> = 1 div numeral b"
  by (metis floor_divide_of_int_eq of_int_1 of_int_numeral)

lemmas round_eval =
  round_magnitude_def floor_log2_def pow2_def round_half_even_def Let_def
  bitlen_one bitlen_Bit0 bitlen_Bit1 floor_rat_numeral_div ceiling_rat_numeral_div
  floor_rat_one_div

text \<open>
  The doubles that Python prints as \<^verbatim>\<open>0.1\<close> and \<^verbatim>\<open>0.3333333333333333\<close>, an
  integer that is a double, ties at \<open>2^53\<close>, and the three ways a division can fail or
  lose its value.
\<close>

lemma true_div_tenth:
  "true_div 1 10 = Inr (Double False (3602879701896397 / 36028797018963968))"
  by (simp add: true_div_def round_eval)

lemma true_div_third:
  "true_div (- 1) 3 = Inr (Double True (6004799503160661 / 18014398509481984))"
  by (simp add: true_div_def round_eval)

lemma true_div_exact: "true_div (- 12) 2 = Inr (Double True 6)"
  by (simp add: true_div_def round_eval)

lemma true_div_ties:
  "true_div 9007199254740993 1 = Inr (Double False 9007199254740992)"
  "true_div 9007199254740995 1 = Inr (Double False 9007199254740996)"
  by (simp_all add: true_div_def round_eval)

lemma true_div_negative_zero: "true_div 0 (- 5) = Inr (Double True 0)"
  by (simp add: true_div_def round_magnitude_def)

lemma true_div_by_zero: "true_div a 0 = Inl ZeroDivisionError"
  by (simp add: true_div_def)

lemma true_div_largest:
  "true_div (2 ^ 1024 - 2 ^ 971) 1 = Inr (Double False (2 ^ 1024 - 2 ^ 971))"
  by (simp add: true_div_def round_eval)

lemma true_div_overflow: "true_div (2 ^ 1024 - 2 ^ 970) 1 = Inl OverflowError"
  by (simp add: true_div_def round_eval)

lemma true_div_smallest:
  "true_div 1 (2 ^ 1074) = Inr (Double False (1 / 2 ^ 1074))"
  "true_div 3 (2 ^ 1075) = Inr (Double False (2 / 2 ^ 1074))"
  by (simp_all add: true_div_def round_eval)

lemma true_div_underflow: "true_div (- 1) (2 ^ 1075) = Inr (Double True 0)"
  by (simp add: true_div_def round_eval)

lemma true_div_positive_divisor:
  assumes "0 < b"
  shows "true_div a b = nearest_double (of_int a / of_int b)"
proof -
  have sign: "(of_int a / of_int b < (0::rat)) = (a < 0)"
    using assms by (simp add: divide_less_0_iff)
  have "((a < 0) \<noteq> (b < 0)) = (a < 0)" using assms by simp
  with sign have "((a < 0) \<noteq> (b < 0)) = (of_int a / of_int b < (0::rat))" by simp
  then show ?thesis using assms by (simp only: true_div_def nearest_double_def) simp
qed

lemma energy_demo_counts:
  "compute_maxcut_energy demo_counts G_demo =
     Inr (Double True (6605279453476727 / 2251799813685248))"
proof -
  have "energy_loop demo_counts G_demo 0 0 = Inr (- 44, 15)"
    by (simp add: demo_counts_def maxcut_obj_def G_demo_def getitem_def)
  moreover have "true_div (- 44) 15 = Inr (Double True (6605279453476727 / 2251799813685248))"
    by (simp add: true_div_def round_eval)
  ultimately show ?thesis by (simp add: compute_maxcut_energy_def)
qed

text \<open>
  With a negative count among the entries the total can be positive and the quotient
  beyond the largest double; the division then raises.
\<close>

lemma energy_overflow:
  "compute_maxcut_energy [(''00011'', - (2 ^ 1024)), (''00000'', 2 ^ 1024 + 1)] G_demo =
     Inl OverflowError"
proof -
  have "energy_loop [(''00011'', - (2 ^ 1024)), (''00000'', 2 ^ 1024 + 1)] G_demo 0 0 =
      Inr (6 * 2 ^ 1024, 1)"
    by (simp add: maxcut_obj_def G_demo_def getitem_def)
  moreover have "true_div (6 * 2 ^ 1024) 1 = Inl OverflowError"
    by (simp add: true_div_def round_eval)
  ultimately show ?thesis by (simp add: compute_maxcut_energy_def)
qed

text \<open>
  Claim C2. For a graph \<open>G\<close> and an outcome distribution over \<open>G\<close> whose counts add up
  to a positive total, \<^verbatim>\<open>compute_maxcut_energy\<close> returns the double nearest to the
  occurrence-weighted mean of the cut value, that is, to the sum over the bitstrings
  \<open>b\<close> of \<open>count(b) * cut_value(b, G)\<close> divided by the sum of all counts; it raises
  \<^verbatim>\<open>OverflowError\<close> when that double does not exist. The mean itself is returned only
  when it is a double.
\<close>

theorem energy_is_rounded_weighted_mean:
  assumes "valid_graph G" and "counts_for counts G" and "0 < total_count counts"
  shows "compute_maxcut_energy counts G = nearest_double (weighted_mean counts G)"
proof -
  have keys: "\<forall>k \<in> set (map fst counts). length k = number_of_nodes G"
    using assms(2) by (simp add: counts_for_def)
  from assms(3) have pos: "0 < (\<Sum>(b, c) \<leftarrow> counts. c)"
    by (simp add: sum_counts_total)
  show ?thesis
    by (simp add: compute_maxcut_energy_def energy_loop_sums [OF assms(1) keys]
          true_div_positive_divisor [OF pos] weighted_mean_def)
qed

theorem energy_is_rounded_weighted_mean_witness:
  "valid_graph G_demo \<and> counts_for demo_counts G_demo \<and> 0 < total_count demo_counts \<and>
   compute_maxcut_energy demo_counts G_demo = nearest_double (weighted_mean demo_counts G_demo) \<and>
   weighted_mean demo_counts G_demo = - 44 / 15 \<and>
   nearest_double (- 44 / 15) = Inr (Double True (6605279453476727 / 2251799813685248))"
proof -
  have pos: "0 < total_count demo_counts"
    by (simp add: total_count_def demo_counts_def)
  have mean: "weighted_mean demo_counts G_demo = - 44 / 15"
    by (simp add: weighted_mean_def cut_value_def demo_counts_def G_demo_def)
  have near: "nearest_double (- 44 / 15) =
      Inr (Double True (6605279453476727 / 2251799813685248))"
    by (simp add: nearest_double_def round_eval)
  from energy_is_rounded_weighted_mean [OF valid_graph_G_demo counts_for_demo_counts pos]
  show ?thesis using valid_graph_G_demo counts_for_demo_counts pos mean near by simp
qed

text \<open>
  The returned double is not the mean: on the sample distribution the mean is
  \<open>-44/15\<close>, which no double equals.
\<close>

theorem energy_not_exact_mean:
  "valid_graph G_demo \<and> counts_for demo_counts G_demo \<and> 0 < total_count demo_counts \<and>
   weighted_mean demo_counts G_demo = - 44 / 15 \<and>
   compute_maxcut_energy demo_counts G_demo =
     Inr (Double True (6605279453476727 / 2251799813685248)) \<and>
   value_of (Double True (6605279453476727 / 2251799813685248)) \<noteq>
     weighted_mean demo_counts G_demo"
proof -
  have pos: "0 < total_count demo_counts"
    by (simp add: total_count_def demo_counts_def)
  have mean: "weighted_mean demo_counts G_demo = - 44 / 15"
    by (simp add: weighted_mean_def cut_value_def demo_counts_def G_demo_def)
  have "value_of (Double True (6605279453476727 / 2251799813685248)) \<noteq> - 44 / 15"
    by (simp add: value_of_def)
  with valid_graph_G_demo counts_for_demo_counts pos mean energy_demo_counts
  show ?thesis by simp
qed

text \<open>
  Claim C5. For a graph \<open>G\<close> and an outcome distribution over \<open>G\<close> whose counts add up
  to zero, in particular the empty distribution, \<^verbatim>\<open>compute_maxcut_energy\<close> fails: the
  final division raises \<^verbatim>\<open>ZeroDivisionError\<close>, which is the failure the
  specification calls \<open>EmptyDistributionError\<close>.
\<close>

theorem energy_zero_total_fails:
  assumes "valid_graph G" and "counts_for counts G" and "total_count counts = 0"
  shows "compute_maxcut_energy counts G = Inl ZeroDivisionError"
proof -
  have keys: "\<forall>k \<in> set (map fst counts). length k = number_of_nodes G"
    using assms(2) by (simp add: counts_for_def)
  from assms(3) have "(\<Sum>(b, c) \<leftarrow> counts. c) = 0"
    by (simp add: sum_counts_total)
  then show ?thesis
    by (simp add: compute_maxcut_energy_def energy_loop_sums [OF assms(1) keys]
          true_div_def)
qed

theorem energy_zero_total_fails_witness:
  "valid_graph G_demo \<and> counts_for [] G_demo \<and> total_count [] = 0 \<and>
   compute_maxcut_energy [] G_demo = Inl ZeroDivisionError \<and>
   counts_for zero_counts G_demo \<and> total_count zero_counts = 0 \<and>
   compute_maxcut_energy zero_counts G_demo = Inl ZeroDivisionError"
proof -
  have e: "counts_for [] G_demo" "total_count [] = 0"
    by (simp_all add: counts_for_def is_dict_def total_count_def)
  have z: "total_count zero_counts = 0"
    by (simp add: total_count_def zero_counts_def)
  from energy_zero_total_fails [OF valid_graph_G_demo e]
    energy_zero_total_fails [OF valid_graph_G_demo counts_for_zero_counts z]
  show ?thesis using valid_graph_G_demo counts_for_zero_counts e z by simp
qed

text \<open>
  Claim C8. For a graph \<open>G\<close> and two outcome distributions that hold the same
  key-count pairs and enumerate them in different orders, \<^verbatim>\<open>compute_maxcut_energy\<close>
  gives the same result on both, be it a value or an exception.
\<close>

theorem energy_order_independent:
  assumes "mset d1 = mset d2"
  shows "compute_maxcut_energy d1 G = compute_maxcut_energy d2 G"
proof -
  let ?summand = "\<lambda>p. (case maxcut_obj (fst p) G of Inl err \<Rightarrow> 0 | Inr c \<Rightarrow> c) * snd p"
  have "set d1 = set d2" using assms by (rule mset_eq_setD)
  moreover have "sum_list (map ?summand d1) = sum_list (map ?summand d2)"
    using assms by (rule sum_list_mset_cong)
  moreover have "sum_list (map snd d1) = sum_list (map snd d2)"
    using assms by (rule sum_list_mset_cong)
  ultimately have "energy_loop d1 G 0 0 = energy_loop d2 G 0 0"
    by (simp only: energy_loop_general)
  then show ?thesis by (simp only: compute_maxcut_energy_def)
qed

theorem energy_order_independent_witness:
  "mset demo_counts = mset demo_counts_reordered \<and>
   demo_counts \<noteq> demo_counts_reordered \<and>
   compute_maxcut_energy demo_counts G_demo =
     compute_maxcut_energy demo_counts_reordered G_demo"
proof -
  have perm: "mset demo_counts = mset demo_counts_reordered"
    by (simp add: demo_counts_def demo_counts_reordered_def)
  have diff: "demo_counts \<noteq> demo_counts_reordered"
    by (simp add: demo_counts_def demo_counts_reordered_def)
  from energy_order_independent [OF perm, of G_demo] perm diff show ?thesis by simp
qed

section \<open>Properties of the selection of the best sample\<close>

lemma min_loop_first_minimum:
  assumes "\<forall>y \<in> set pre. key b < key y" and "\<forall>y \<in> set mid. key b \<le> key y"
  shows "\<exists>pre' post'. pre @ b # mid @ ys = pre' @ min_loop key b ys # post' \<and>
           (\<forall>y \<in> set pre'. key (min_loop key b ys) < key y) \<and>
           (\<forall>y \<in> set post'. key (min_loop key b ys) \<le> key y)"
  using assms
proof (induction ys arbitrary: pre b mid)
  case Nil
  then show ?case by auto
next
  case (Cons y ys)
  show ?case
  proof (cases "key y < key b")
    case True
    have 1: "\<forall>z \<in> set (pre @ b # mid). key y < key z"
      using Cons.prems True by fastforce
    have 2: "\<forall>z \<in> set []. key y \<le> key z" by simp
    from Cons.IH [OF 1 2] True show ?thesis by simp
  next
    case False
    have 2: "\<forall>z \<in> set (mid @ [y]). key b \<le> key z"
      using Cons.prems(2) False by auto
    from Cons.IH [OF Cons.prems(1) 2] False show ?thesis by simp
  qed
qed

lemma py_min_first_minimum:
  assumes "xs \<noteq> []"
  shows "\<exists>pre m post. py_min key xs = Inr m \<and> xs = pre @ m # post \<and>
           (\<forall>y \<in> set pre. key m < key y) \<and> (\<forall>y \<in> set post. key m \<le> key y)"
proof -
  from assms obtain x ys where xs: "xs = x # ys" by (cases xs) auto
  have "\<forall>y \<in> set []. key x < key y" and "\<forall>y \<in> set []. key x \<le> key y" by simp_all
  from min_loop_first_minimum [OF this, of ys]
  show ?thesis by (auto simp: py_min_def xs)
qed

lemma scored_keys_valid:
  assumes "valid_graph G" and "\<forall>k \<in> set ks. length k = number_of_nodes G"
  shows "scored_keys ks G = Inr (map (\<lambda>k. (cut_value k G, k)) ks)"
  using assms(2)
  by (induction ks) (simp_all add: maxcut_obj_cut_value [OF assms(1)])

lemma map_eq_split:
  assumes "map f xs = ys @ y # zs"
  shows "\<exists>us u vs. xs = us @ u # vs \<and> ys = map f us \<and> y = f u \<and> zs = map f vs"
  using assms by (auto simp: map_eq_append_conv map_eq_Cons_conv)

text \<open>
  On the sample distribution two keys reach the smallest objective \<open>-6\<close>; the one that
  comes first is selected. On the empty distribution \<^verbatim>\<open>min\<close> raises.
\<close>

lemma best_selection_demo: "best_selection demo_counts G_demo = Inr (- 6, ''11100'')"
  by (simp add: best_selection_def py_min_def demo_counts_def maxcut_obj_def G_demo_def
        getitem_def)

lemma best_selection_reordered:
  "best_selection demo_counts_reordered G_demo = Inr (- 6, ''00011'')"
  by (simp add: best_selection_def py_min_def demo_counts_reordered_def maxcut_obj_def
        G_demo_def getitem_def)

lemma best_report_demo: "best_report demo_counts G_demo = Inr (''11100'', 6)"
  by (simp add: best_report_def best_selection_demo)

lemma best_selection_empty: "best_selection [] G = Inl ValueError"
  by (simp add: best_selection_def py_min_def)

text \<open>
  Claim C6. For a graph \<open>G\<close> and a non-empty outcome distribution over \<open>G\<close>, the
  selection picks a key \<open>s\<close> of the distribution whose objective \<open>c\<close> is the smallest
  among all keys: every key enumerated before \<open>s\<close> has a strictly larger objective
  (ties go to the first occurrence in the iteration order) and every key enumerated
  after \<open>s\<close> has an objective that is at least \<open>c\<close>. The reported cut size is \<open>- c\<close>.
\<close>

theorem best_selection_first_minimum:
  assumes "valid_graph G" and "counts_for counts G" and "counts \<noteq> []"
  shows "\<exists>pre s post c.
           map fst counts = pre @ s # post \<and>
           maxcut_obj s G = Inr c \<and>
           best_selection counts G = Inr (c, s) \<and>
           best_report counts G = Inr (s, - c) \<and>
           (\<forall>k \<in> set pre. \<exists>ck. maxcut_obj k G = Inr ck \<and> c < ck) \<and>
           (\<forall>k \<in> set post. \<exists>ck. maxcut_obj k G = Inr ck \<and> c \<le> ck)"
proof -
  let ?f = "\<lambda>k. (cut_value k G, k)"
  have keys: "\<forall>k \<in> set (map fst counts). length k = number_of_nodes G"
    using assms(2) by (simp add: counts_for_def)
  have obj: "maxcut_obj k G = Inr (cut_value k G)" if "k \<in> set (map fst counts)" for k
    using keys that by (intro maxcut_obj_cut_value [OF assms(1)]) blast
  have scored: "scored_keys (map fst counts) G = Inr (map ?f (map fst counts))"
    using assms(1) keys by (rule scored_keys_valid)
  have "map ?f (map fst counts) \<noteq> []" using assms(3) by simp
  from py_min_first_minimum [OF this, of fst]
  obtain pre' m post' where m: "py_min fst (map ?f (map fst counts)) = Inr m"
    and split: "map ?f (map fst counts) = pre' @ m # post'"
    and before: "\<forall>y \<in> set pre'. fst m < fst y"
    and after: "\<forall>y \<in> set post'. fst m \<le> fst y"
    by blast
  from split obtain pre s post where ks: "map fst counts = pre @ s # post"
    and pre': "pre' = map ?f pre" and ms: "m = ?f s" and post': "post' = map ?f post"
    using map_eq_split [of ?f "map fst counts" pre' m post'] by blast
  have sel: "best_selection counts G = Inr (cut_value s G, s)"
    by (simp add: best_selection_def scored m ms [symmetric] del: map_map)
  have rep: "best_report counts G = Inr (s, - cut_value s G)"
    by (simp add: best_report_def sel)
  have s_obj: "maxcut_obj s G = Inr (cut_value s G)"
    by (rule obj) (simp add: ks)
  have pre_ok: "\<exists>ck. maxcut_obj k G = Inr ck \<and> cut_value s G < ck" if "k \<in> set pre" for k
  proof -
    from that have "?f k \<in> set pre'" by (simp add: pre')
    with before have "cut_value s G < cut_value k G" by (auto simp: ms)
    moreover have "maxcut_obj k G = Inr (cut_value k G)"
      by (rule obj) (simp add: ks that)
    ultimately show ?thesis by blast
  qed
  have post_ok: "\<exists>ck. maxcut_obj k G = Inr ck \<and> cut_value s G \<le> ck" if "k \<in> set post" for k
  proof -
    from that have "?f k \<in> set post'" by (simp add: post')
    with after have "cut_value s G \<le> cut_value k G" by (auto simp: ms)
    moreover have "maxcut_obj k G = Inr (cut_value k G)"
      by (rule obj) (simp add: ks that)
    ultimately show ?thesis by blast
  qed
  from ks s_obj sel rep pre_ok post_ok show ?thesis by blast
qed

theorem best_selection_first_minimum_witness:
  "valid_graph G_demo \<and> counts_for demo_counts G_demo \<and> demo_counts \<noteq> [] \<and>
   (\<exists>pre s post c.
      map fst demo_counts = pre @ s # post \<and>
      maxcut_obj s G_demo = Inr c \<and>
      best_selection demo_counts G_demo = Inr (c, s) \<and>
      best_report demo_counts G_demo = Inr (s, - c) \<and>
      (\<forall>k \<in> set pre. \<exists>ck. maxcut_obj k G_demo = Inr ck \<and> c < ck) \<and>
      (\<forall>k \<in> set post. \<exists>ck. maxcut_obj k G_demo = Inr ck \<and> c \<le> ck))"
proof -
  have ne: "demo_counts \<noteq> []" by (simp add: demo_counts_def)
  from best_selection_first_minimum [OF valid_graph_G_demo counts_for_demo_counts ne]
  show ?thesis using valid_graph_G_demo counts_for_demo_counts ne by blast
qed

section \<open>Properties of the circuit construction\<close>

lemma append_instructions_simps:
  "num_qubits (append_instructions qc ins) = num_qubits qc"
  "num_clbits (append_instructions qc ins) = num_clbits qc"
  "data (append_instructions qc ins) = data qc @ ins"
  by (simp_all add: append_instructions_def)

lemma append_instructions_twice:
  "append_instructions (append_instructions qc xs) ys = append_instructions qc (xs @ ys)"
  by (simp add: append_instructions_def)

lemma append_instructions_Nil: "append_instructions qc [] = qc"
  by (simp add: append_instructions_def)

lemma append_zz_term_ok:
  assumes "q1 \<noteq> q2" and "q1 < num_qubits qc" and "q2 < num_qubits qc"
  shows "append_zz_term qc q1 q2 gamma = Inr (append_instructions qc (zz_term q1 q2 gamma))"
  using assms
  by (simp add: append_zz_term_def cx_def rz_def append_instructions_def zz_term_def)

text \<open>
  An edge from a line to itself, or to a line outside the register, is rejected by the
  circuit.
\<close>

lemma append_zz_term_same_line:
  "append_zz_term (QuantumCircuit 2 2) 1 1 gamma = Inl CircuitError"
  by (simp add: append_zz_term_def cx_def)

lemma append_zz_term_outside:
  "append_zz_term (QuantumCircuit 2 2) 0 2 gamma = Inl CircuitError"
  by (simp add: append_zz_term_def cx_def QuantumCircuit_def)

text \<open>
  Claim C7. For two different lines \<open>q1\<close> and \<open>q2\<close> of the circuit and an angle
  \<open>gamma\<close>, \<^verbatim>\<open>append_zz_term\<close> appends exactly three instructions, in this order:
  the entangling operation on \<open>q1\<close> and \<open>q2\<close>, the phase rotation of angle
  \<open>2 * gamma\<close> on \<open>q2\<close>, and the entangling operation on \<open>q1\<close> and \<open>q2\<close> again.
  Nothing else of the circuit changes: the registers and the instructions already
  present stay as they are.
\<close>

theorem append_zz_term_appends:
  assumes "q1 \<noteq> q2" and "q1 < num_qubits qc" and "q2 < num_qubits qc"
  shows "append_zz_term qc q1 q2 gamma =
           Inr (qc\<lparr>data := data qc @ [CX q1 q2, RZ (2 * gamma) q2, CX q1 q2]\<rparr>)"
  using assms
  by (simp add: append_zz_term_def cx_def rz_def append_instructions_def)

theorem append_zz_term_appends_witness:
  "(0::nat) \<noteq> 1 \<and> 0 < num_qubits (QuantumCircuit 2 2) \<and> 1 < num_qubits (QuantumCircuit 2 2) \<and>
   append_zz_term (QuantumCircuit 2 2) 0 1 (1 / 4) =
     Inr \<lparr>num_qubits = 2, num_clbits = 2, data = [CX 0 1, RZ (1 / 2) 1, CX 0 1]\<rparr>"
proof -
  have h: "(0::nat) \<noteq> 1" "0 < num_qubits (QuantumCircuit 2 2)"
    "1 < num_qubits (QuantumCircuit 2 2)"
    by (simp_all add: QuantumCircuit_def)
  from append_zz_term_appends [OF h, of "1 / 4"] h show ?thesis
    by (simp add: QuantumCircuit_def)
qed

lemma cost_loop_ok:
  assumes "\<forall>(i, j) \<in> set es. i < num_qubits qc \<and> j < num_qubits qc \<and> i \<noteq> j"
  shows "cost_loop qc es gamma =
           Inr (append_instructions qc
                  (concat (map (\<lambda>(i, j). zz_term i j gamma @ [Barrier [0..<num_qubits qc]]) es)))"
  using assms
proof (induction es arbitrary: qc)
  case Nil
  show ?case by (simp add: append_instructions_Nil)
next
  case (Cons e es)
  obtain i j where e: "e = (i, j)" by (cases e)
  from Cons.prems e have ij: "i \<noteq> j" "i < num_qubits qc" "j < num_qubits qc" by auto
  let ?qc1 = "barrier (append_instructions qc (zz_term i j gamma))"
  have n: "num_qubits ?qc1 = num_qubits qc"
    by (simp add: barrier_def append_instructions_simps)
  have rest: "\<forall>(i, j) \<in> set es. i < num_qubits ?qc1 \<and> j < num_qubits ?qc1 \<and> i \<noteq> j"
    using Cons.prems unfolding n by simp
  show ?case
    by (simp add: e append_zz_term_ok [OF ij] Cons.IH [OF rest] n)
       (simp add: barrier_def append_instructions_def)
qed

lemma get_cost_operator_circuit_ok:
  assumes "valid_graph G"
  shows "get_cost_operator_circuit G gamma =
           Inr \<lparr>num_qubits = number_of_nodes G, num_clbits = number_of_nodes G,
                data = cost_layer G gamma\<rparr>"
proof -
  let ?qc = "QuantumCircuit (number_of_nodes G) (number_of_nodes G)"
  have "\<forall>(i, j) \<in> set (edges G). i < num_qubits ?qc \<and> j < num_qubits ?qc \<and> i \<noteq> j"
    using valid_graph_edge_bounds [OF assms] by (fastforce simp: QuantumCircuit_def)
  from cost_loop_ok [OF this] show ?thesis
    by (simp add: get_cost_operator_circuit_def cost_layer_def Let_def)
       (simp add: QuantumCircuit_def append_instructions_def)
qed

lemma mixer_loop_ok:
  assumes "\<forall>n \<in> set ns. n < num_qubits qc"
  shows "mixer_loop qc ns beta =
           Inr (append_instructions qc (map (\<lambda>n. RX (2 * beta) n) ns))"
  using assms
proof (induction ns arbitrary: qc)
  case Nil
  show ?case by (simp add: append_instructions_Nil)
next
  case (Cons n ns)
  let ?qc1 = "append_instructions qc [RX (2 * beta) n]"
  have rest: "\<forall>n \<in> set ns. n < num_qubits ?qc1"
    using Cons.prems by (simp add: append_instructions_simps)
  from Cons.prems show ?case
    by (simp add: append_x_term_def rx_def Cons.IH [OF rest] append_instructions_twice)
qed

lemma get_mixer_operator_circuit_ok:
  assumes "valid_graph G"
  shows "get_mixer_operator_circuit G beta =
           Inr \<lparr>num_qubits = number_of_nodes G, num_clbits = number_of_nodes G,
                data = mixer_layer G beta\<rparr>"
proof -
  let ?qc = "QuantumCircuit (number_of_nodes G) (number_of_nodes G)"
  have "\<forall>n \<in> set (nodes G). n < num_qubits ?qc"
    using assms by (simp add: valid_graph_def QuantumCircuit_def number_of_nodes_def)
  from mixer_loop_ok [OF this] show ?thesis
    by (simp add: get_mixer_operator_circuit_def mixer_layer_def Let_def)
       (simp add: QuantumCircuit_def append_instructions_def)
qed

lemma qaoa_loop_ok:
  assumes "valid_graph G"
    and "num_qubits qc = number_of_nodes G" and "num_clbits qc = number_of_nodes G"
    and "\<forall>i \<in> set ls. i < length beta \<and> i < length gamma"
  shows "qaoa_loop qc G beta gamma ls =
           Inr (append_instructions qc
                  (concat (map (\<lambda>l. cost_layer G (gamma ! l) @ mixer_layer G (beta ! l)) ls)))"
  using assms(2-)
proof (induction ls arbitrary: qc)
  case Nil
  show ?case by (simp add: append_instructions_Nil)
next
  case (Cons l ls)
  let ?qc2 = "append_instructions qc (cost_layer G (gamma ! l) @ mixer_layer G (beta ! l))"
  have l: "l < length beta" "l < length gamma" using Cons.prems(3) by simp_all
  have rest: "\<forall>i \<in> set ls. i < length beta \<and> i < length gamma"
    using Cons.prems(3) by simp
  have nq: "num_qubits ?qc2 = number_of_nodes G" and nc: "num_clbits ?qc2 = number_of_nodes G"
    using Cons.prems(1,2) by (simp_all add: append_instructions_simps)
  show ?case
    using Cons.prems(1,2) l
    by (simp add: getitem_def get_cost_operator_circuit_ok [OF assms(1)]
          get_mixer_operator_circuit_ok [OF assms(1)] compose_def
          append_instructions_simps append_instructions_twice
          Cons.IH [OF nq nc rest])
qed

text \<open>
  Claim C3. For a graph \<open>G\<close> with at least one node and angle vectors \<open>beta\<close> and
  \<open>gamma\<close> (on the graph without nodes the Hadamard layer is rejected, see below),
  \<^verbatim>\<open>get_qaoa_circuit\<close> fails when the two vectors differ in length: the assertion
  raises \<^verbatim>\<open>AssertionError\<close>, which is the failure the specification calls
  \<open>ParameterMismatchError\<close>. Otherwise it succeeds, and the circuit over \<open>N\<close> lines
  consists of the Hadamard layer on all lines, followed by exactly \<open>p = len(beta)\<close>
  pairs of a cost layer with angle \<open>gamma[l]\<close> and a mixer layer with angle
  \<open>beta[l]\<close>, in this order for \<open>l = 0, ..., p - 1\<close>, followed by the measurement of
  all lines. A barrier, which is a separator and not an operation, stands after every
  coupling term of a cost layer and before the measurement.
\<close>

theorem get_qaoa_circuit_structure:
  assumes "valid_graph G" and "nodes G \<noteq> []"
  shows "get_qaoa_circuit G beta gamma =
           (if length beta \<noteq> length gamma then Inl AssertionError
            else Inr \<lparr>num_qubits = number_of_nodes G, num_clbits = number_of_nodes G,
                      data = hadamard_layer G @ alternating_layers G beta gamma @
                             [Barrier [0..<number_of_nodes G]] @ measurement_layer G\<rparr>)"
proof (cases "length beta = length gamma")
  case False
  then show ?thesis by (simp add: get_qaoa_circuit_def)
next
  case True
  let ?N = "number_of_nodes G"
  let ?qc1 = "\<lparr>num_qubits = ?N, num_clbits = ?N, data = map H [0..<?N]\<rparr>"
  have nq: "num_qubits ?qc1 = ?N" and nc: "num_clbits ?qc1 = ?N"
    by simp_all
  have idx: "\<forall>i \<in> set [0..<length gamma]. i < length beta \<and> i < length gamma"
    using True by simp
  note loop = qaoa_loop_ok [OF assms(1) nq nc idx]
  have "0 < ?N" using assms(2) by (simp add: number_of_nodes_def)
  then show ?thesis
    using True
    by (simp add: get_qaoa_circuit_def h_range_def QuantumCircuit_def loop
          barrier_range_def measure_range_def append_instructions_def Let_def
          hadamard_layer_def alternating_layers_def measurement_layer_def)
qed


text \<open>
  The graph without nodes is a valid graph, and on it the construction fails although
  the two angle vectors have the same length: the Hadamard layer over no lines is
  rejected.
\<close>

theorem get_qaoa_circuit_no_nodes:
  "valid_graph G_empty \<and> length ([] :: real list) = length ([] :: real list) \<and>
   get_qaoa_circuit G_empty [] [] = Inl CircuitError"
  by (simp add: valid_graph_def G_empty_def get_qaoa_circuit_def number_of_nodes_def
        h_range_def)

lemma valid_graph_G_pair: "valid_graph G_pair"
  by (simp add: valid_graph_def G_pair_def)

theorem get_qaoa_circuit_structure_witness:
  "valid_graph G_pair \<and> nodes G_pair \<noteq> [] \<and>
   get_qaoa_circuit G_pair [1 / 2] [] = Inl AssertionError \<and>
   get_qaoa_circuit G_pair [1 / 2] [1 / 4] =
     Inr \<lparr>num_qubits = 2, num_clbits = 2,
          data = [H 0, H 1,
                  CX 0 1, RZ (1 / 2) 1, CX 0 1, Barrier [0, 1],
                  RX 1 0, RX 1 1,
                  Barrier [0, 1],
                  Measure 0 0, Measure 1 1]\<rparr>"
proof -
  have two: "[0..<2] = [0, 1]" by (simp add: upt_rec)
  have n: "number_of_nodes G_pair = 2" by (simp add: number_of_nodes_def G_pair_def)
  have layers: "hadamard_layer G_pair = [H 0, H 1]"
    "cost_layer G_pair (1 / 4) = [CX 0 1, RZ (1 / 2) 1, CX 0 1, Barrier [0, 1]]"
    "mixer_layer G_pair (1 / 2) = [RX 1 0, RX 1 1]"
    "measurement_layer G_pair = [Measure 0 0, Measure 1 1]"
    by (simp_all add: hadamard_layer_def cost_layer_def mixer_layer_def
          measurement_layer_def zz_term_def n two) (simp_all add: G_pair_def)
  have alt: "alternating_layers G_pair [1 / 2] [1 / 4] =
      cost_layer G_pair (1 / 4) @ mixer_layer G_pair (1 / 2)"
    by (simp add: alternating_layers_def)
  have ne: "nodes G_pair \<noteq> []" by (simp add: G_pair_def)
  from get_qaoa_circuit_structure [OF valid_graph_G_pair ne, of "[1 / 2]" "[]"]
    get_qaoa_circuit_structure [OF valid_graph_G_pair ne, of "[1 / 2]" "[1 / 4]"]
    valid_graph_G_pair ne
  show ?thesis by (simp add: alt layers n two)
qed

end
